theory Spec2Isabelle
  imports Complex_Main "HOL-Library.Signed_Division"
begin

section \<open>The time ruler of the video editor (src/data/video.ts, component Ruler)\<close>

text \<open>
  The component draws a zoomable ruler on a canvas and maps pointer positions back to
  timeline pixels. JavaScript numbers are modelled as exact rationals: the model speaks
  about the arithmetic the code writes down, not about IEEE rounding. The one place where
  the code's quotients are not finite numbers (a zero \<open>zoomUnit\<close>) is a \<open>None\<close> of
  \<open>draw\<close>.
\<close>

type_synonym num = rat

subsection \<open>Data\<close>

text \<open>
  \<open>scale\<close> of the store: \<open>const { scale } = useStore()\<close>. The store's declaration is
  not in the source file; \<open>segments\<close>, the bound of a counting loop, is an integer, as the
  specification's data model has it.
\<close>

record Scale =
  zoom :: num
  unit :: num
  segments :: int

text \<open>
  The imports from \<open>../constants/constants\<close> and \<open>utils/format\<close>. Their values are not
  part of the source file, so they are parameters of the model.
\<close>

record Constants =
  PREVIEW_FRAME_WIDTH :: num
  SECONDARY_FONT :: string
  SMALL_FONT_SIZE :: num
  TIMELINE_OFFSET_CANVAS_LEFT :: num
  TIMELINE_OFFSET_X :: num
  formatTimelineUnit :: "num \<Rightarrow> string"

text \<open>
  \<open>interface RulerProps\<close>: every field is optional (the fields carry the prefix \<open>p_\<close>
  to keep them apart from the locals that the destructuring binds). \<open>onClick\<close> is a
  callback, of which the model records only whether it is supplied; its calls appear in
  the trace.
\<close>

record RulerProps =
  p_height :: "num option"
  p_longLineSize :: "num option"
  p_shortLineSize :: "num option"
  p_offsetX :: "num option"
  p_textOffsetY :: "num option"
  p_scrollPos :: "num option"
  p_textFormat :: "(num \<Rightarrow> string) option"
  p_scrollLeft :: "num option"
  p_onClick :: bool

text \<open>
  What the body of \<open>Ruler\<close> sees after the destructuring of the props with its defaults,
  together with the store's scale, the constants and the text metrics of the 2D context
  (\<open>context.measureText(text).width\<close> under the font that \<open>draw\<close> sets).
\<close>

record Ruler =
  constants :: Constants
  scale :: Scale
  measureText :: "string \<Rightarrow> num"
  height :: num
  longLineSize :: num
  shortLineSize :: num
  offsetX :: num
  textOffsetY :: num
  textFormat :: "num \<Rightarrow> string"
  scrollPos :: num
  onClick :: bool

definition dflt :: "'a option \<Rightarrow> 'a \<Rightarrow> 'a" where
  "dflt v d = (case v of None \<Rightarrow> d | Some x \<Rightarrow> x)"

text \<open>Lines 106-117: the destructuring. The prop \<open>scrollPos\<close> is never read; the local
  \<open>scrollPos\<close> is the prop \<open>scrollLeft\<close>.\<close>

definition Ruler_props :: "Constants \<Rightarrow> Scale \<Rightarrow> (string \<Rightarrow> num) \<Rightarrow> RulerProps \<Rightarrow> Ruler" where
  "Ruler_props C sc mt props =
     \<lparr> constants = C, scale = sc, measureText = mt,
       height = dflt (p_height props) 40,
       longLineSize = dflt (p_longLineSize props) 8,
       shortLineSize = dflt (p_shortLineSize props) 6,
       offsetX = dflt (p_offsetX props) (TIMELINE_OFFSET_X C + TIMELINE_OFFSET_CANVAS_LEFT C),
       textOffsetY = dflt (p_textOffsetY props) 12,
       textFormat = dflt (p_textFormat props) (formatTimelineUnit C),
       scrollPos = dflt (p_scrollLeft props) 0,
       onClick = p_onClick props \<rparr>"

text \<open>The calls on the 2D context, in the order they are made.\<close>

datatype cmd =
    ClearRect num num num num
  | Save
  | SetStrokeStyle string
  | SetFillStyle string
  | SetLineWidth num
  | SetFont num string
  | SetTextBaseline string
  | Translate num num
  | BeginPath
  | MeasureText string
  | FillText string num num
  | MoveTo num num
  | LineTo num num
  | Stroke
  | Restore

subsection \<open>draw\<close>

text \<open>Lines 171-180: everything \<open>draw\<close> does before it computes the range.\<close>

definition draw_prologue :: "Ruler \<Rightarrow> num \<Rightarrow> num \<Rightarrow> cmd list" where
  "draw_prologue R width hgt =
     [ClearRect 0 0 width hgt, Save, SetStrokeStyle ''#71717a'', SetFillStyle ''#71717a'',
      SetLineWidth 1, SetFont (SMALL_FONT_SIZE (constants R)) (SECONDARY_FONT (constants R)),
      SetTextBaseline ''top'', Translate (1/2) 0, BeginPath]"

text \<open>Line 182.\<close>

definition zoomUnit :: "Ruler \<Rightarrow> num" where
  "zoomUnit R = unit (scale R) * zoom (scale R) * PREVIEW_FRAME_WIDTH (constants R)"

text \<open>Lines 183-184.\<close>

definition minRange :: "Ruler \<Rightarrow> num \<Rightarrow> int" where
  "minRange R sp = \<lfloor>sp / zoomUnit R\<rfloor>"

definition maxRange :: "Ruler \<Rightarrow> num \<Rightarrow> num \<Rightarrow> int" where
  "maxRange R sp width = \<lceil>(sp + width) / zoomUnit R\<rceil>"

text \<open>Lines 193-194: the position of a label, before the text is centred.\<close>

definition text_startValue :: "Ruler \<Rightarrow> int \<Rightarrow> num" where
  "text_startValue R v = (of_int v * zoomUnit R) / zoom (scale R)"

definition text_startPos :: "Ruler \<Rightarrow> num \<Rightarrow> int \<Rightarrow> num" where
  "text_startPos R sp v = (text_startValue R v - sp / zoom (scale R)) * zoom (scale R)"

text \<open>Lines 213-214: the position of the first line of an index.\<close>

definition line_startValue :: "Ruler \<Rightarrow> int \<Rightarrow> num" where
  "line_startValue R v = of_int v * zoomUnit R"

definition line_startPos :: "Ruler \<Rightarrow> num \<Rightarrow> int \<Rightarrow> num" where
  "line_startPos R sp v = line_startValue R v - sp + offsetX R"

text \<open>
  Lines 189-204, one turn of the first loop for the index \<open>v = i + minRange\<close>. The result
  is what the turn sends to the context, tagged with the index; a \<open>continue\<close> is the
  empty list.
\<close>

definition text_body :: "Ruler \<Rightarrow> num \<Rightarrow> num \<Rightarrow> int \<Rightarrow> (int \<times> cmd list) list" where
  "text_body R sp width v =
     (if v < 0 then []
      else let startValue = text_startValue R v;
               startPos = text_startPos R sp v
           in if startPos < - zoomUnit R \<or> startPos \<ge> width + zoomUnit R then []
              else let txt = textFormat R startValue;
                       textWidth = measureText R txt;
                       textOffsetX = - textWidth / 2
                   in [(v, [MeasureText txt,
                            FillText txt (startPos + textOffsetX + offsetX R) (textOffsetY R)])])"

text \<open>Line 188: \<open>for (let i = 0; i <= length; ++i)\<close>, with \<open>len\<close> for \<open>length\<close>.\<close>

function text_loop :: "Ruler \<Rightarrow> num \<Rightarrow> num \<Rightarrow> int \<Rightarrow> int \<Rightarrow> int \<Rightarrow> (int \<times> cmd list) list" where
  "text_loop R sp width mn len i =
     (if i \<le> len then text_body R sp width (i + mn) @ text_loop R sp width mn len (i + 1)
      else [])"
  by pat_completeness auto
termination
  by (relation "measure (\<lambda>(R, sp, width, mn, len, i). nat (len + 1 - i))") auto

declare text_loop.simps [simp del]

text \<open>
  Lines 221-238: the line of sub-index \<open>j\<close> at \<open>pos\<close>. \<open>j % segments\<close> is JavaScript's
  remainder, which takes the sign of \<open>j\<close> (\<open>smod\<close>), and is NaN, hence falsy, when
  \<open>segments\<close> is zero.
\<close>

definition lineSize :: "Ruler \<Rightarrow> int \<Rightarrow> num" where
  "lineSize R j =
     (if segments (scale R) \<noteq> 0 \<and> j smod segments (scale R) \<noteq> 0
      then shortLineSize R else longLineSize R)"

definition line_cmds :: "Ruler \<Rightarrow> num \<Rightarrow> int \<Rightarrow> cmd list" where
  "line_cmds R pos j =
     (let origin = 32 in
      [SetStrokeStyle (if lineSize R j = shortLineSize R then ''#a1a1aa'' else ''#d4d4d8''),
       BeginPath, MoveTo pos origin, LineTo pos (origin + lineSize R j), Stroke])"

text \<open>Lines 217-238, one turn of the inner loop, tagged with the index and the
  sub-index.\<close>

definition line_step :: "Ruler \<Rightarrow> num \<Rightarrow> num \<Rightarrow> int \<Rightarrow> int \<Rightarrow> ((int \<times> int) \<times> cmd list) list" where
  "line_step R width startPos v j =
     (let pos = startPos + (of_int j / of_int (segments (scale R))) * zoomUnit R
      in if pos < 0 \<or> pos \<ge> width then [] else [((v, j), line_cmds R pos j)])"

text \<open>Line 216: \<open>for (let j = 0; j < segments; ++j)\<close>.\<close>

function line_inner :: "Ruler \<Rightarrow> num \<Rightarrow> num \<Rightarrow> int \<Rightarrow> int \<Rightarrow> ((int \<times> int) \<times> cmd list) list" where
  "line_inner R width startPos v j =
     (if j < segments (scale R)
      then line_step R width startPos v j @ line_inner R width startPos v (j + 1)
      else [])"
  by pat_completeness auto
termination
  by (relation "measure (\<lambda>(R, width, startPos, v, j). nat (segments (scale R) - j))") auto

declare line_inner.simps [simp del]

text \<open>Lines 209-240, one turn of the second loop for the index \<open>v = i + minRange\<close>.\<close>

definition line_body :: "Ruler \<Rightarrow> num \<Rightarrow> num \<Rightarrow> int \<Rightarrow> ((int \<times> int) \<times> cmd list) list" where
  "line_body R sp width v =
     (if v < 0 then [] else line_inner R width (line_startPos R sp v) v 0)"

text \<open>Line 208.\<close>

function line_loop :: "Ruler \<Rightarrow> num \<Rightarrow> num \<Rightarrow> int \<Rightarrow> int \<Rightarrow> int \<Rightarrow> ((int \<times> int) \<times> cmd list) list" where
  "line_loop R sp width mn len i =
     (if i \<le> len then line_body R sp width (i + mn) @ line_loop R sp width mn len (i + 1)
      else [])"
  by pat_completeness auto
termination
  by (relation "measure (\<lambda>(R, sp, width, mn, len, i). nat (len + 1 - i))") auto

declare line_loop.simps [simp del]

text \<open>The two passes of \<open>draw\<close> with the range of lines 183-185.\<close>

definition draw_labels :: "Ruler \<Rightarrow> num \<Rightarrow> num \<Rightarrow> (int \<times> cmd list) list" where
  "draw_labels R sp width =
     text_loop R sp width (minRange R sp) (maxRange R sp width - minRange R sp) 0"

definition draw_lines :: "Ruler \<Rightarrow> num \<Rightarrow> num \<Rightarrow> ((int \<times> int) \<times> cmd list) list" where
  "draw_lines R sp width =
     line_loop R sp width (minRange R sp) (maxRange R sp width - minRange R sp) 0"

text \<open>
  Lines 162-243. With \<open>zoomUnit = 0\<close> the quotients of lines 183-184 are NaN or infinite in
  JavaScript and no exact number; that case is \<open>None\<close>. (\<open>zoom = 0\<close> makes \<open>zoomUnit\<close>
  zero, so the divisions by \<open>zoom\<close> are covered too.)
\<close>

definition draw :: "Ruler \<Rightarrow> num \<Rightarrow> num \<Rightarrow> num \<Rightarrow> cmd list option" where
  "draw R sp width hgt =
     (if zoomUnit R = 0 then None
      else Some (draw_prologue R width hgt
                 @ concat (map snd (draw_labels R sp width))
                 @ concat (map snd (draw_lines R sp width))
                 @ [Restore]))"

subsection \<open>The component's state, resize\<close>

text \<open>
  The canvas element as far as the component reads and writes it:
  \<open>getBoundingClientRect().left\<close>, the \<open>offsetWidth\<close> of its \<open>offsetParent\<close> (if it has
  one), its own \<open>offsetWidth\<close>, what \<open>getContext("2d")\<close> returns (a handle), and the
  backing-buffer size \<open>canvas.width\<close>, \<open>canvas.height\<close>.
\<close>

record Canvas =
  rect_left :: num
  offsetParent :: "int option"
  offsetWidth :: int
  getContext2d :: "nat option"
  canvas_width :: num
  canvas_height :: num

text \<open>
  The hooks of the component: \<open>canvasRef.current\<close>, \<open>canvasContext\<close>, \<open>canvasSize\<close> (width,
  height), \<open>isDragging\<close>. \<open>listeners\<close> is the document's registration of
  \<open>handleMouseMove\<close>/\<open>handleMouseUp\<close>: \<open>Some d\<close> when the pair created by the render with
  \<open>isDragging = d\<close> is registered, \<open>None\<close> when none is.
\<close>

record State =
  canvasRef :: "Canvas option"
  canvasContext :: "nat option"
  canvasSize :: "num \<times> num"
  isDragging :: bool
  listeners :: "bool option"

text \<open>What a handler does to the outside, in order.\<close>

datatype effect =
    CanvasWidth num
  | CanvasHeight num
  | Context nat cmd
  | SetCanvasSize num num
  | SetCanvasContext "nat option"
  | ConsoleLog num num num num num
  | OnClick num

text \<open>The state of the first render: \<open>useState({ width: 0, height: height })\<close>,
  \<open>useState(false)\<close>, \<open>useState(null)\<close>.\<close>

definition initial_state :: "Ruler \<Rightarrow> Canvas option \<Rightarrow> State" where
  "initial_state R cv =
     \<lparr> canvasRef = cv, canvasContext = None, canvasSize = (0, height R),
       isDragging = False, listeners = None \<rparr>"

text \<open>Lines 151-152: \<open>offsetParent?.offsetWidth ?? canvas.offsetWidth\<close>.\<close>

definition container_width :: "Canvas \<Rightarrow> num" where
  "container_width cv =
     (case offsetParent cv of Some w \<Rightarrow> of_int w | None \<Rightarrow> of_int (offsetWidth cv))"

text \<open>
  Lines 144-160. The result is the state after the call with the trace of the call, or
  \<open>None\<close> where \<open>draw\<close> is outside the model. Both callers pass \<open>canvasRef.current\<close>,
  so the writes to \<open>canvas.width\<close> and \<open>canvas.height\<close> are writes to the canvas of the
  state.
\<close>

definition resize ::
  "Ruler \<Rightarrow> State \<Rightarrow> Canvas option \<Rightarrow> nat option \<Rightarrow> num \<Rightarrow> (State \<times> effect list) option" where
  "resize R S canvas context sp =
     (case canvas of None \<Rightarrow> Some (S, [])
      | Some cv \<Rightarrow>
        (case context of None \<Rightarrow> Some (S, [])
         | Some ctx \<Rightarrow>
           let width = container_width cv;
               hgt = snd (canvasSize S)
           in (case draw R sp width hgt of None \<Rightarrow> None
               | Some cmds \<Rightarrow>
                 Some (S\<lparr> canvasRef := map_option (\<lambda>c. c\<lparr> canvas_width := width, canvas_height := hgt \<rparr>)
                                        (canvasRef S),
                         canvasSize := (width, hgt) \<rparr>,
                       [CanvasWidth width, CanvasHeight hgt] @ map (Context ctx) cmds
                       @ [SetCanvasSize width hgt]))))"

text \<open>Lines 129-136, the effect of the first render.\<close>

definition mount_effect :: "Ruler \<Rightarrow> State \<Rightarrow> (State \<times> effect list) option" where
  "mount_effect R S =
     (case canvasRef S of None \<Rightarrow> Some (S, [])
      | Some cv \<Rightarrow>
        let context = getContext2d cv in
        (case resize R S (Some cv) context (scrollPos R) of None \<Rightarrow> None
         | Some (S', tr) \<Rightarrow>
           Some (S'\<lparr> canvasContext := context \<rparr>, SetCanvasContext context # tr)))"

text \<open>Lines 138-142, the effect on \<open>[canvasContext, scrollPos, scale]\<close>.\<close>

definition update_effect :: "Ruler \<Rightarrow> State \<Rightarrow> (State \<times> effect list) option" where
  "update_effect R S =
     (case canvasContext S of None \<Rightarrow> Some (S, [])
      | Some ctx \<Rightarrow> resize R S (canvasRef S) (Some ctx) (scrollPos R))"

subsection \<open>Gestures\<close>

text \<open>Line 252.\<close>

definition timelineStart :: "Ruler \<Rightarrow> num" where
  "timelineStart R = TIMELINE_OFFSET_X (constants R) + TIMELINE_OFFSET_CANVAS_LEFT (constants R)"

text \<open>Lines 247-266. The handler calls no setter and writes nothing to the canvas.\<close>

definition handleTimelineClick :: "Ruler \<Rightarrow> State \<Rightarrow> num \<Rightarrow> State \<times> effect list" where
  "handleTimelineClick R S clickX =
     (case canvasRef S of None \<Rightarrow> (S, [])
      | Some canvas \<Rightarrow>
        if \<not> onClick R then (S, [])
        else let relativePosition = clickX - rect_left canvas - timelineStart R
             in (S, ConsoleLog clickX (timelineStart R) relativePosition (zoom (scale R)) (scrollPos R)
                    # (if relativePosition \<ge> 0 then [OnClick (relativePosition + scrollPos R)]
                       else [])))"

text \<open>
  Lines 274-295, the effect on \<open>[isDragging]\<close>, run by React when a render commits a
  changed \<open>isDragging\<close>: the cleanup of the previous run removes its listeners, then the
  new run registers its own pair if \<open>isDragging\<close> holds. A setter called with the current
  value changes nothing.
\<close>

definition setIsDragging :: "bool \<Rightarrow> State \<Rightarrow> State" where
  "setIsDragging d S =
     (if d = isDragging S then S
      else S\<lparr> isDragging := d, listeners := (if d then Some d else None) \<rparr>)"

text \<open>Lines 268-271. The click is handled by the closure of the current render, the new
  \<open>isDragging\<close> is committed after the handler.\<close>

definition handleMouseDown :: "Ruler \<Rightarrow> State \<Rightarrow> num \<Rightarrow> State \<times> effect list" where
  "handleMouseDown R S clientX =
     (let (S', tr) = handleTimelineClick R S clientX in (setIsDragging True S', tr))"

text \<open>Lines 275-278, for the listener created with \<open>isDragging = d\<close>.\<close>

definition handleMouseMove :: "Ruler \<Rightarrow> bool \<Rightarrow> State \<Rightarrow> num \<Rightarrow> State \<times> effect list" where
  "handleMouseMove R d S clientX = (if \<not> d then (S, []) else handleTimelineClick R S clientX)"

text \<open>Lines 280-282.\<close>

definition handleMouseUp :: "State \<Rightarrow> State \<times> effect list" where
  "handleMouseUp S = (setIsDragging False S, [])"

text \<open>
  The pointer events that reach the component: a press on the overlay div, and moves and
  releases anywhere in the document, which reach it only through registered listeners.
  The props and the scale are those of \<open>R\<close> throughout a run.
\<close>

datatype event = MouseDown num | DocumentMouseMove num | DocumentMouseUp

fun dispatch :: "Ruler \<Rightarrow> State \<Rightarrow> event \<Rightarrow> State \<times> effect list" where
  "dispatch R S (MouseDown x) = handleMouseDown R S x"
| "dispatch R S (DocumentMouseMove x) =
     (case listeners S of None \<Rightarrow> (S, []) | Some d \<Rightarrow> handleMouseMove R d S x)"
| "dispatch R S DocumentMouseUp =
     (case listeners S of None \<Rightarrow> (S, []) | Some d \<Rightarrow> handleMouseUp S)"

fun run :: "Ruler \<Rightarrow> State \<Rightarrow> event list \<Rightarrow> State \<times> effect list" where
  "run R S [] = (S, [])"
| "run R S (e # es) =
     (let (S1, tr1) = dispatch R S e; (S2, tr2) = run R S1 es in (S2, tr1 @ tr2))"

text \<open>The arguments of the calls of \<open>onClick\<close> in a trace, in order.\<close>

fun callbacks :: "effect list \<Rightarrow> num list" where
  "callbacks [] = []"
| "callbacks (OnClick x # tr) = x # callbacks tr"
| "callbacks (_ # tr) = callbacks tr"

subsection \<open>The ruler as the specification words it\<close>

text \<open>
  The sub-ticks of one index as section 4.2, step 5 of the specification describes them:
  \<open>segments\<close> evenly spaced positions from the index's start, those outside
  \<open>[0, width)\<close> left out, the first one long and prominent, the others short and muted.
\<close>

definition spec_subtick_pos :: "Ruler \<Rightarrow> num \<Rightarrow> int \<Rightarrow> int \<Rightarrow> num" where
  "spec_subtick_pos R sp v j =
     line_startPos R sp v + (of_int j / of_int (segments (scale R))) * zoomUnit R"

definition spec_subtick :: "Ruler \<Rightarrow> num \<Rightarrow> int \<Rightarrow> int \<Rightarrow> (int \<times> int) \<times> cmd list" where
  "spec_subtick R sp v j =
     ((v, j),
      [SetStrokeStyle (if j = 0 then ''#d4d4d8'' else ''#a1a1aa''), BeginPath,
       MoveTo (spec_subtick_pos R sp v j) 32,
       LineTo (spec_subtick_pos R sp v j) (32 + (if j = 0 then longLineSize R else shortLineSize R)),
       Stroke])"

definition spec_subticks :: "Ruler \<Rightarrow> num \<Rightarrow> num \<Rightarrow> int \<Rightarrow> ((int \<times> int) \<times> cmd list) list" where
  "spec_subticks R sp width v =
     map (spec_subtick R sp v)
         (filter (\<lambda>j. 0 \<le> spec_subtick_pos R sp v j \<and> spec_subtick_pos R sp v j < width)
                 [0..segments (scale R) - 1])"

definition spec_lines :: "Ruler \<Rightarrow> num \<Rightarrow> num \<Rightarrow> ((int \<times> int) \<times> cmd list) list" where
  "spec_lines R sp width =
     concat (map (spec_subticks R sp width)
                 (filter (\<lambda>v. 0 \<le> v) [minRange R sp..maxRange R sp width]))"

text \<open>Index and sub-index in the order of the loops.\<close>

definition tick_before :: "int \<times> int \<Rightarrow> int \<times> int \<Rightarrow> bool" where
  "tick_before a b = (fst a < fst b \<or> (fst a = fst b \<and> snd a < snd b))"

subsection \<open>A concrete ruler\<close>

text \<open>
  One instance for the examples: a zoom unit of 60 pixels in four segments, a leading
  offset of \<open>4 + 6 = 10\<close> pixels, every prop at its default, a callback supplied, and a
  canvas whose left edge is at 0 in a container 100 pixels wide.
\<close>

definition ex_constants :: Constants where
  "ex_constants =
     \<lparr> PREVIEW_FRAME_WIDTH = 60, SECONDARY_FONT = ''sans-serif'', SMALL_FONT_SIZE = 10,
       TIMELINE_OFFSET_CANVAS_LEFT = 6, TIMELINE_OFFSET_X = 4,
       formatTimelineUnit = (\<lambda>x. if x = 0 then ''0'' else ''t'') \<rparr>"

definition ex_scale :: Scale where
  "ex_scale = \<lparr> zoom = 1, unit = 1, segments = 4 \<rparr>"

definition ex_props :: RulerProps where
  "ex_props =
     \<lparr> p_height = None, p_longLineSize = None, p_shortLineSize = None, p_offsetX = None,
       p_textOffsetY = None, p_scrollPos = None, p_textFormat = None, p_scrollLeft = None,
       p_onClick = True \<rparr>"

definition ex_ruler :: Ruler where
  "ex_ruler = Ruler_props ex_constants ex_scale (\<lambda>t. 6 * of_nat (length t)) ex_props"

definition ex_canvas :: Canvas where
  "ex_canvas =
     \<lparr> rect_left = 0, offsetParent = Some 100, offsetWidth = 100, getContext2d = Some 0,
       canvas_width = 300, canvas_height = 150 \<rparr>"

definition ex_state :: State where
  "ex_state = initial_state ex_ruler (Some ex_canvas)"

subsection \<open>The invariant of the drag listeners\<close>

text \<open>The document listeners are registered exactly while \<open>isDragging\<close> holds, and they
  are those of a render with \<open>isDragging = true\<close>.\<close>

definition drag_inv :: "State \<Rightarrow> bool" where
  "drag_inv S = (listeners S = (if isDragging S then Some True else None))"

section \<open>Properties\<close>

subsection \<open>The loops of draw, turn by turn\<close>

lemma text_loop_upto:
  "text_loop R sp w mn len i = concat (map (\<lambda>k. text_body R sp w (k + mn)) [i..len])"
proof (induction R sp w mn len i rule: text_loop.induct)
  case (1 R sp w mn len i)
  show ?case
  proof (cases "i \<le> len")
    case True
    have "text_loop R sp w mn len i
          = text_body R sp w (i + mn) @ text_loop R sp w mn len (i + 1)"
      using True by (subst text_loop.simps) simp
    also have "\<dots> = text_body R sp w (i + mn)
                   @ concat (map (\<lambda>k. text_body R sp w (k + mn)) [i + 1..len])"
      using 1 [OF True] by simp
    also have "\<dots> = concat (map (\<lambda>k. text_body R sp w (k + mn)) [i..len])"
      using True by (subst (2) upto_rec1) (simp_all only: list.map concat.simps if_True)
    finally show ?thesis .
  next
    case False
    then show ?thesis by (subst text_loop.simps) simp
  qed
qed

lemma line_loop_upto:
  "line_loop R sp w mn len i = concat (map (\<lambda>k. line_body R sp w (k + mn)) [i..len])"
proof (induction R sp w mn len i rule: line_loop.induct)
  case (1 R sp w mn len i)
  show ?case
  proof (cases "i \<le> len")
    case True
    have "line_loop R sp w mn len i
          = line_body R sp w (i + mn) @ line_loop R sp w mn len (i + 1)"
      using True by (subst line_loop.simps) simp
    also have "\<dots> = line_body R sp w (i + mn)
                   @ concat (map (\<lambda>k. line_body R sp w (k + mn)) [i + 1..len])"
      using 1 [OF True] by simp
    also have "\<dots> = concat (map (\<lambda>k. line_body R sp w (k + mn)) [i..len])"
      using True by (subst (2) upto_rec1) (simp_all only: list.map concat.simps if_True)
    finally show ?thesis .
  next
    case False
    then show ?thesis by (subst line_loop.simps) simp
  qed
qed

lemma line_inner_upto:
  "line_inner R w p v j = concat (map (line_step R w p v) [j..segments (scale R) - 1])"
proof (induction R w p v j rule: line_inner.induct)
  case (1 R w p v j)
  show ?case
  proof (cases "j < segments (scale R)")
    case True
    then have le: "j \<le> segments (scale R) - 1" by simp
    have "line_inner R w p v j = line_step R w p v j @ line_inner R w p v (j + 1)"
      using True by (subst line_inner.simps) simp
    also have "\<dots> = line_step R w p v j
                   @ concat (map (line_step R w p v) [j + 1..segments (scale R) - 1])"
      using 1 [OF True] by simp
    also have "\<dots> = concat (map (line_step R w p v) [j..segments (scale R) - 1])"
      using le by (subst (2) upto_rec1) (simp_all only: list.map concat.simps if_True)
    finally show ?thesis .
  next
    case False
    then show ?thesis by (subst line_inner.simps) simp
  qed
qed

lemma map_add_upto: "map (\<lambda>k. k + mn) [i..j] = [i + mn..j + (mn::int)]"
proof (induction i j rule: upto.induct)
  case (1 i j)
  then show ?case
    by (cases "i \<le> j") (simp_all add: upto_rec1 [of i j] upto_rec1 [of "i + mn" "j + mn"] add.commute add.left_commute)
qed

lemma concat_map_shift:
  "concat (map (\<lambda>k. f (k + mn)) [0..len]) = concat (map f [mn..mn + (len::int)])"
proof -
  have "map (\<lambda>k. f (k + mn)) [0..len] = map f (map (\<lambda>k. k + mn) [0..len])"
    by (simp add: comp_def)
  then show ?thesis
    by (simp add: map_add_upto add.commute)
qed

lemma draw_labels_upto:
  "draw_labels R sp w = concat (map (text_body R sp w) [minRange R sp..maxRange R sp w])"
  unfolding draw_labels_def text_loop_upto concat_map_shift by simp

lemma draw_lines_upto:
  "draw_lines R sp w = concat (map (line_body R sp w) [minRange R sp..maxRange R sp w])"
  unfolding draw_lines_def line_loop_upto concat_map_shift by simp

lemma text_body_mem:
  assumes "(v, cs) \<in> set (text_body R sp w u)"
  shows "v = u \<and> 0 \<le> v \<and> - zoomUnit R \<le> text_startPos R sp v
         \<and> text_startPos R sp v < w + zoomUnit R
         \<and> cs = [MeasureText (textFormat R (text_startValue R v)),
                 FillText (textFormat R (text_startValue R v))
                   (text_startPos R sp v
                    + - measureText R (textFormat R (text_startValue R v)) / 2 + offsetX R)
                   (textOffsetY R)]"
  using assms by (auto simp: text_body_def Let_def split: if_splits)

lemma line_step_mem:
  assumes "(t, cs) \<in> set (line_step R w p v j)"
  shows "t = (v, j) \<and> 0 \<le> p + (of_int j / of_int (segments (scale R))) * zoomUnit R
         \<and> p + (of_int j / of_int (segments (scale R))) * zoomUnit R < w
         \<and> cs = line_cmds R (p + (of_int j / of_int (segments (scale R))) * zoomUnit R) j"
  using assms by (auto simp: line_step_def Let_def split: if_splits)

lemma line_body_mem:
  assumes "(t, cs) \<in> set (line_body R sp w u)"
  shows "\<exists>j. t = (u, j) \<and> 0 \<le> u \<and> 0 \<le> j \<and> j < segments (scale R)
         \<and> 0 \<le> spec_subtick_pos R sp u j \<and> spec_subtick_pos R sp u j < w
         \<and> cs = line_cmds R (spec_subtick_pos R sp u j) j"
proof -
  from assms have u: "0 \<le> u"
    and "(t, cs) \<in> set (line_inner R w (line_startPos R sp u) u 0)"
    by (auto simp: line_body_def split: if_splits)
  then obtain j where j: "j \<in> set [0..segments (scale R) - 1]"
    and "(t, cs) \<in> set (line_step R w (line_startPos R sp u) u j)"
    by (auto simp: line_inner_upto)
  from line_step_mem [OF this(2)] j u show ?thesis
    by (auto simp: spec_subtick_pos_def)
qed

lemma draw_labels_mem:
  assumes "(v, cs) \<in> set (draw_labels R sp w)"
  shows "0 \<le> v \<and> minRange R sp \<le> v \<and> v \<le> maxRange R sp w
         \<and> - zoomUnit R \<le> text_startPos R sp v
         \<and> text_startPos R sp v < w + zoomUnit R
         \<and> cs = [MeasureText (textFormat R (text_startValue R v)),
                 FillText (textFormat R (text_startValue R v))
                   (text_startPos R sp v
                    + - measureText R (textFormat R (text_startValue R v)) / 2 + offsetX R)
                   (textOffsetY R)]"
proof -
  from assms obtain u where "u \<in> set [minRange R sp..maxRange R sp w]"
    and m: "(v, cs) \<in> set (text_body R sp w u)"
    by (auto simp: draw_labels_upto)
  with text_body_mem [OF m] show ?thesis by auto
qed

lemma draw_lines_mem:
  assumes "(t, cs) \<in> set (draw_lines R sp w)"
  shows "\<exists>v j. t = (v, j) \<and> 0 \<le> v \<and> minRange R sp \<le> v \<and> v \<le> maxRange R sp w
         \<and> 0 \<le> j \<and> j < segments (scale R)
         \<and> 0 \<le> spec_subtick_pos R sp v j \<and> spec_subtick_pos R sp v j < w
         \<and> cs = line_cmds R (spec_subtick_pos R sp v j) j"
proof -
  from assms obtain u where u: "u \<in> set [minRange R sp..maxRange R sp w]"
    and m: "(t, cs) \<in> set (line_body R sp w u)"
    by (auto simp: draw_lines_upto)
  from line_body_mem [OF m] u show ?thesis by auto
qed

lemma zoomUnit_pos:
  assumes "0 < zoom (scale R)" "0 < unit (scale R)" "0 < PREVIEW_FRAME_WIDTH (constants R)"
  shows "0 < zoomUnit R"
  using assms by (simp add: zoomUnit_def)

lemma draw_Some:
  "zoomUnit R \<noteq> 0 \<Longrightarrow>
   draw R sp w h = Some (draw_prologue R w h @ concat (map snd (draw_labels R sp w))
                         @ concat (map snd (draw_lines R sp w)) @ [Restore])"
  by (simp add: draw_def)

lemma text_pos_eq:
  assumes "zoom (scale R) \<noteq> 0"
  shows "text_startPos R sp v = line_startValue R v - sp"
  using assms
  by (simp add: text_startPos_def text_startValue_def line_startValue_def field_simps)

subsection \<open>Where the line points come from\<close>

lemma line_point_prologue: "MoveTo x y \<notin> set (draw_prologue R w h) \<and> LineTo x y \<notin> set (draw_prologue R w h)"
  by (simp add: draw_prologue_def)

lemma line_point_labels:
  "MoveTo x y \<notin> set (concat (map snd (draw_labels R sp w)))
   \<and> LineTo x y \<notin> set (concat (map snd (draw_labels R sp w)))"
  by (auto dest!: draw_labels_mem)

lemma line_point_lines:
  assumes "MoveTo x y \<in> set (concat (map snd (draw_lines R sp w)))
           \<or> LineTo x y \<in> set (concat (map snd (draw_lines R sp w)))"
  shows "0 \<le> x \<and> x < w"
proof -
  from assms obtain t cs where m: "(t, cs) \<in> set (draw_lines R sp w)"
    and x: "MoveTo x y \<in> set cs \<or> LineTo x y \<in> set cs"
    by auto
  from draw_lines_mem [OF m] x show ?thesis
    by (auto simp: line_cmds_def)
qed

subsection \<open>The inner loop against the specification's sub-ticks\<close>

lemma smod_small:
  assumes "0 \<le> j" and "j < (s::int)"
  shows "j smod s = j"
  using assms by (simp add: signed_modulo_int_def sgn_if)

lemma lineSize_spec:
  assumes "0 \<le> j" and "j < segments (scale R)"
  shows "lineSize R j = (if j = 0 then longLineSize R else shortLineSize R)"
  using assms by (auto simp: lineSize_def smod_small)

lemma line_cmds_spec:
  assumes "0 \<le> j" and "j < segments (scale R)" and "longLineSize R \<noteq> shortLineSize R"
  shows "((v, j), line_cmds R (spec_subtick_pos R sp v j) j) = spec_subtick R sp v j"
  using assms by (simp add: line_cmds_def spec_subtick_def lineSize_spec)

lemma line_step_spec:
  assumes "0 \<le> j" and "j < segments (scale R)" and "longLineSize R \<noteq> shortLineSize R"
  shows "line_step R w (line_startPos R sp v) v j =
         (if 0 \<le> spec_subtick_pos R sp v j \<and> spec_subtick_pos R sp v j < w
          then [spec_subtick R sp v j] else [])"
proof -
  have "line_step R w (line_startPos R sp v) v j =
        (if 0 \<le> spec_subtick_pos R sp v j \<and> spec_subtick_pos R sp v j < w
         then [((v, j), line_cmds R (spec_subtick_pos R sp v j) j)] else [])"
    by (auto simp: line_step_def spec_subtick_pos_def Let_def)
  then show ?thesis
    by (simp add: line_cmds_spec [OF assms])
qed

lemma concat_map_singletons:
  assumes "\<And>x. x \<in> set xs \<Longrightarrow> f x = (if P x then [g x] else [])"
  shows "concat (map f xs) = map g (filter P xs)"
  using assms by (induction xs) simp_all

lemma concat_map_guard:
  assumes "\<And>x. x \<in> set xs \<Longrightarrow> f x = (if P x then g x else [])"
  shows "concat (map f xs) = concat (map g (filter P xs))"
  using assms by (induction xs) simp_all

lemma line_body_spec:
  assumes "longLineSize R \<noteq> shortLineSize R"
  shows "line_body R sp w v = (if 0 \<le> v then spec_subticks R sp w v else [])"
proof (cases "0 \<le> v")
  case True
  have "line_inner R w (line_startPos R sp v) v 0 = spec_subticks R sp w v"
    unfolding line_inner_upto spec_subticks_def
    by (rule concat_map_singletons) (simp add: line_step_spec assms)
  with True show ?thesis by (simp add: line_body_def)
next
  case False
  then show ?thesis by (simp add: line_body_def)
qed

subsection \<open>The order of the two passes\<close>

lemma strict_upto: "sorted_wrt (<) [i..j::int]"
  using sorted_upto [of i j] distinct_upto [of i j] by (simp add: strict_sorted_iff)

lemma map_fst_concat_le1:
  assumes "\<And>x. x \<in> set xs \<Longrightarrow> map fst (f x) = (if P x then [x] else [])"
  shows "map fst (concat (map f xs)) = filter P xs"
  using assms by (induction xs) (simp_all add: map_concat)

lemma text_body_fst:
  "map fst (text_body R sp w v) = (if text_body R sp w v \<noteq> [] then [v] else [])"
  by (simp add: text_body_def Let_def)

lemma draw_labels_indices:
  "map fst (draw_labels R sp w)
   = filter (\<lambda>v. text_body R sp w v \<noteq> []) [minRange R sp..maxRange R sp w]"
  unfolding draw_labels_upto by (rule map_fst_concat_le1) (rule text_body_fst)

lemma draw_labels_sorted: "sorted_wrt (<) (map fst (draw_labels R sp w))"
  unfolding draw_labels_indices by (rule sorted_wrt_filter) (rule strict_upto)

lemma sorted_wrt_concat_blocks:
  assumes "sorted_wrt (<) (vs::int list)"
    and "\<And>v. v \<in> set vs \<Longrightarrow> sorted_wrt tick_before (f v)"
    and "\<And>v t. v \<in> set vs \<Longrightarrow> t \<in> set (f v) \<Longrightarrow> fst t = v"
  shows "sorted_wrt tick_before (concat (map f vs))"
  using assms
proof (induction vs)
  case Nil
  then show ?case by simp
next
  case (Cons v vs)
  have "tick_before a b" if "a \<in> set (f v)" and "u \<in> set vs" and "b \<in> set (f u)" for a b u
  proof -
    from that Cons.prems(3) have "fst a = v" and "fst b = u" by auto
    moreover from that Cons.prems(1) have "v < u" by simp
    ultimately show ?thesis by (simp add: tick_before_def)
  qed
  moreover have "sorted_wrt tick_before (concat (map f vs))"
    using Cons by simp
  moreover have "sorted_wrt tick_before (f v)"
    using Cons.prems(2) by simp
  ultimately show ?case
    by (auto simp: sorted_wrt_append)
qed

lemma line_step_fst:
  "map fst (line_step R w p v j) = (if line_step R w p v j \<noteq> [] then [(v, j)] else [])"
  by (simp add: line_step_def Let_def)

lemma line_inner_sorted: "sorted_wrt tick_before (map fst (line_inner R w p v 0))"
proof -
  have "map fst (line_inner R w p v 0)
        = concat (map (\<lambda>j. map fst (line_step R w p v j)) [0..segments (scale R) - 1])"
    by (simp add: line_inner_upto map_concat comp_def)
  also have "\<dots> = map (Pair v) (filter (\<lambda>j. line_step R w p v j \<noteq> []) [0..segments (scale R) - 1])"
    by (rule concat_map_singletons) (simp add: line_step_fst)
  finally have e: "map fst (line_inner R w p v 0)
        = map (Pair v) (filter (\<lambda>j. line_step R w p v j \<noteq> []) [0..segments (scale R) - 1])" .
  have "sorted_wrt (<) (filter (\<lambda>j. line_step R w p v j \<noteq> []) [0..segments (scale R) - 1])"
    by (rule sorted_wrt_filter) (rule strict_upto)
  then show ?thesis
    unfolding e by (simp add: sorted_wrt_map tick_before_def)
qed

lemma line_body_sorted: "sorted_wrt tick_before (map fst (line_body R sp w v))"
  by (simp add: line_body_def line_inner_sorted)

lemma line_body_fst:
  assumes "t \<in> set (map fst (line_body R sp w v))"
  shows "fst t = v"
proof -
  from assms obtain cs where "(t, cs) \<in> set (line_body R sp w v)" by auto
  from line_body_mem [OF this] show ?thesis by auto
qed

lemma draw_lines_sorted: "sorted_wrt tick_before (map fst (draw_lines R sp w))"
proof -
  have "map fst (draw_lines R sp w)
        = concat (map (\<lambda>v. map fst (line_body R sp w v)) [minRange R sp..maxRange R sp w])"
    by (simp add: draw_lines_upto map_concat comp_def)
  moreover have "sorted_wrt tick_before
        (concat (map (\<lambda>v. map fst (line_body R sp w v)) [minRange R sp..maxRange R sp w]))"
    by (rule sorted_wrt_concat_blocks) (simp_all add: strict_upto line_body_sorted line_body_fst)
  ultimately show ?thesis by simp
qed

lemma prologue_paint:
  "draw_prologue R w h = ClearRect 0 0 w h # tl (draw_prologue R w h)
   \<and> Stroke \<notin> set (draw_prologue R w h)
   \<and> FillText t x y \<notin> set (tl (draw_prologue R w h))
   \<and> ClearRect a b c d \<notin> set (tl (draw_prologue R w h))"
  by (simp add: draw_prologue_def)

lemma labels_paint:
  assumes "c \<in> set (concat (map snd (draw_labels R sp w)))"
  shows "(\<exists>t. c = MeasureText t) \<or> (\<exists>t x y. c = FillText t x y)"
proof -
  from assms obtain v cs where "(v, cs) \<in> set (draw_labels R sp w)" and "c \<in> set cs"
    by auto
  with draw_labels_mem [OF this(1)] show ?thesis by auto
qed

lemma lines_paint:
  assumes "c \<in> set (concat (map snd (draw_lines R sp w)))"
  shows "(\<exists>s. c = SetStrokeStyle s) \<or> c = BeginPath \<or> (\<exists>x y. c = MoveTo x y)
         \<or> (\<exists>x y. c = LineTo x y) \<or> c = Stroke"
proof -
  from assms obtain v cs where "(v, cs) \<in> set (draw_lines R sp w)" and "c \<in> set cs"
    by auto
  with draw_lines_mem [OF this(1)] show ?thesis
    by (auto simp: line_cmds_def)
qed

lemma append_order:
  assumes "i < length (xs @ ys)" and "j < length (xs @ ys)"
    and "(xs @ ys) ! i \<notin> set ys" and "(xs @ ys) ! j \<notin> set xs"
  shows "i < j"
proof -
  from assms(1,3) have "i < length xs"
    by (metis nth_append nth_mem add_diff_inverse_nat length_append nat_add_left_cancel_less)
  moreover from assms(2,4) have "\<not> j < length xs"
    by (metis nth_append nth_mem)
  ultimately show ?thesis by simp
qed

subsection \<open>A viewport of width zero\<close>

lemma draw_lines_width0: "draw_lines R sp 0 = []"
proof (rule ccontr)
  assume "draw_lines R sp 0 \<noteq> []"
  then obtain t cs where "(t, cs) \<in> set (draw_lines R sp 0)"
    by (cases "draw_lines R sp 0") auto
  from draw_lines_mem [OF this] show False by auto
qed

lemma text_body_in_slack:
  assumes "0 \<le> v" and "- zoomUnit R \<le> text_startPos R sp v"
    and "text_startPos R sp v < w + zoomUnit R"
  shows "text_body R sp w v \<noteq> []"
  using assms by (simp add: text_body_def Let_def)

lemma width0_range:
  assumes "0 \<le> sp" and zu: "0 < zoomUnit R"
    and v: "minRange R sp \<le> v" "v \<le> maxRange R sp 0"
  shows "0 \<le> v \<and> - zoomUnit R < of_int v * zoomUnit R - sp
         \<and> of_int v * zoomUnit R - sp < zoomUnit R"
proof -
  have "0 \<le> sp / zoomUnit R" using assms by simp
  then have "0 \<le> minRange R sp" by (simp add: minRange_def)
  with v have v0: "0 \<le> v" by simp
  have "sp / zoomUnit R < of_int (minRange R sp) + 1"
    unfolding minRange_def by linarith
  also have "\<dots> \<le> of_int v + 1" using v by simp
  finally have "sp < (of_int v + 1) * zoomUnit R"
    using zu by (simp add: pos_divide_less_eq)
  then have lo: "- zoomUnit R < of_int v * zoomUnit R - sp"
    by (simp add: algebra_simps)
  have "of_int v \<le> (of_int (maxRange R sp 0) :: rat)" using v by simp
  also have "\<dots> < sp / zoomUnit R + 1"
    unfolding maxRange_def by simp linarith
  finally have "of_int v * zoomUnit R < (sp / zoomUnit R + 1) * zoomUnit R"
    using zu by simp
  also have "\<dots> = sp + zoomUnit R"
    using zu by (simp add: algebra_simps)
  finally have hi: "of_int v * zoomUnit R - sp < zoomUnit R" by simp
  from v0 lo hi show ?thesis by simp
qed

lemma width0_range_size:
  assumes "0 < zoomUnit R"
  shows "minRange R sp \<le> maxRange R sp 0 \<and> maxRange R sp 0 \<le> minRange R sp + 1"
  unfolding minRange_def maxRange_def by simp linarith

subsection \<open>Clicks and drags\<close>

lemma callbacks_click:
  "callbacks (snd (handleTimelineClick R S x)) =
     (case canvasRef S of None \<Rightarrow> []
      | Some cv \<Rightarrow> if onClick R \<and> 0 \<le> x - rect_left cv - timelineStart R
                  then [x - rect_left cv - timelineStart R + scrollPos R] else [])"
  by (simp add: handleTimelineClick_def Let_def split: option.splits)

lemma state_click: "fst (handleTimelineClick R S x) = S"
  by (simp add: handleTimelineClick_def Let_def split: option.splits)

lemma ex_click_facts:
  "canvasRef ex_state = Some ex_canvas" "onClick ex_ruler" "rect_left ex_canvas = 0"
  "timelineStart ex_ruler = 10" "scrollPos ex_ruler = 0"
  "isDragging ex_state = False" "listeners ex_state = None"
  by code_simp+

lemma run_Cons:
  "fst (run R S (e # es)) = fst (run R (fst (dispatch R S e)) es)"
  "snd (run R S (e # es)) = snd (dispatch R S e) @ snd (run R (fst (dispatch R S e)) es)"
  by (simp_all add: case_prod_beta Let_def)

lemma run_Nil: "fst (run R S []) = S" "snd (run R S []) = []"
  by simp_all

lemma run_append:
  "fst (run R S (es @ fs)) = fst (run R (fst (run R S es)) fs)"
  "snd (run R S (es @ fs)) = snd (run R S es) @ snd (run R (fst (run R S es)) fs)"
  by (induction es arbitrary: S) (simp_all only: run_Cons run_Nil append.simps append_assoc)

lemma callbacks_append: "callbacks (xs @ ys) = callbacks xs @ callbacks ys"
  by (induction xs rule: callbacks.induct) simp_all

lemma moves_without_listeners:
  assumes "listeners S = None"
  shows "run R S (map DocumentMouseMove xs) = (S, [])"
  using assms by (induction xs) simp_all

lemma release_removes_listeners:
  assumes "drag_inv S"
  shows "listeners (fst (dispatch R S DocumentMouseUp)) = None
         \<and> \<not> isDragging (fst (dispatch R S DocumentMouseUp))
         \<and> snd (dispatch R S DocumentMouseUp) = []"
  using assms
  by (auto simp: drag_inv_def handleMouseUp_def setIsDragging_def split: option.splits if_splits)

lemma dispatch_inv:
  assumes "drag_inv S"
  shows "drag_inv (fst (dispatch R S e))"
proof (cases e)
  case (MouseDown x)
  with assms show ?thesis
    by (simp add: drag_inv_def handleMouseDown_def case_prod_beta state_click setIsDragging_def)
next
  case (DocumentMouseMove x)
  with assms show ?thesis
    by (simp add: handleMouseMove_def state_click split: option.splits)
next
  case DocumentMouseUp
  with assms show ?thesis
    by (simp add: drag_inv_def handleMouseUp_def setIsDragging_def split: option.splits)
qed

lemma run_inv:
  assumes "drag_inv S"
  shows "drag_inv (fst (run R S es))"
  using assms
proof (induction es arbitrary: S)
  case Nil
  then show ?case by simp
next
  case (Cons e es)
  from Cons.prems have "drag_inv (fst (dispatch R S e))" by (rule dispatch_inv)
  from Cons.IH [OF this] show ?case
    by (simp only: run_Cons)
qed

lemma drag_press:
  assumes "canvasRef S = Some cv" and "onClick R" and "\<not> isDragging S"
  shows "canvasRef (fst (dispatch R S (MouseDown x))) = Some cv
         \<and> listeners (fst (dispatch R S (MouseDown x))) = Some True
         \<and> isDragging (fst (dispatch R S (MouseDown x)))
         \<and> callbacks (snd (dispatch R S (MouseDown x)))
            = (if 0 \<le> x - rect_left cv - timelineStart R
               then [x - rect_left cv - timelineStart R + scrollPos R] else [])"
  using assms
  by (simp add: handleMouseDown_def case_prod_beta state_click callbacks_click setIsDragging_def)

lemma drag_move:
  assumes "canvasRef S = Some cv" and "onClick R" and "listeners S = Some True"
  shows "fst (dispatch R S (DocumentMouseMove x)) = S
         \<and> callbacks (snd (dispatch R S (DocumentMouseMove x)))
            = (if 0 \<le> x - rect_left cv - timelineStart R
               then [x - rect_left cv - timelineStart R + scrollPos R] else [])"
  using assms
  by (simp add: handleMouseMove_def state_click callbacks_click)

section \<open>The claims\<close>

subsection \<open>C1: drawn ticks stay within the slack bound\<close>

text \<open>
  C1. For every \<open>scrollOffset \<ge> 0\<close>, \<open>viewportWidth \<ge> 0\<close>, \<open>zoom > 0\<close>, \<open>unit > 0\<close> and
  \<open>segments \<ge> 1\<close> (and a positive \<open>PREVIEW_FRAME_WIDTH\<close>, the constant that turns
  \<open>unit \<times> zoom\<close> into pixels), \<open>draw\<close> returns, every line it strokes has both its end
  points at an x inside \<open>[-zoomUnit, viewportWidth + zoomUnit]\<close>, and every label and every
  line that it emits belongs to an index that is not negative. The x is the one passed to
  \<open>moveTo\<close>/\<open>lineTo\<close>, in the coordinates of the context.
\<close>

theorem drawn_ticks_within_slack:
  assumes "0 \<le> sp" and "0 \<le> w"
    and "0 < zoom (scale R)" and "0 < unit (scale R)" and "1 \<le> segments (scale R)"
    and "0 < PREVIEW_FRAME_WIDTH (constants R)"
  shows "(\<exists>cmds. draw R sp w h = Some cmds
           \<and> (\<forall>x y. MoveTo x y \<in> set cmds \<or> LineTo x y \<in> set cmds
                  \<longrightarrow> - zoomUnit R \<le> x \<and> x \<le> w + zoomUnit R))
         \<and> (\<forall>e \<in> set (draw_labels R sp w). 0 \<le> fst e)
         \<and> (\<forall>e \<in> set (draw_lines R sp w). 0 \<le> fst (fst e))"
proof -
  have zu: "0 < zoomUnit R"
    using assms by (simp add: zoomUnit_pos)
  let ?cmds = "draw_prologue R w h @ concat (map snd (draw_labels R sp w))
               @ concat (map snd (draw_lines R sp w)) @ [Restore]"
  have d: "draw R sp w h = Some ?cmds"
    using zu by (simp add: draw_Some)
  have b: "- zoomUnit R \<le> x \<and> x \<le> w + zoomUnit R"
    if "MoveTo x y \<in> set ?cmds \<or> LineTo x y \<in> set ?cmds" for x y
  proof -
    from that line_point_prologue [of x y R w h] line_point_labels [of x y R sp w]
    have "MoveTo x y \<in> set (concat (map snd (draw_lines R sp w)))
          \<or> LineTo x y \<in> set (concat (map snd (draw_lines R sp w)))"
      by auto
    from line_point_lines [OF this] zu show ?thesis by simp
  qed
  have l: "0 \<le> fst e" if "e \<in> set (draw_labels R sp w)" for e
    using draw_labels_mem [of "fst e" "snd e" R sp w] that by simp
  have m: "0 \<le> fst (fst e)" if "e \<in> set (draw_lines R sp w)" for e
    using draw_lines_mem [of "fst e" "snd e" R sp w] that by auto
  from d b l m show ?thesis by blast
qed

theorem drawn_ticks_within_slack_witness:
  "(0::rat) \<le> 5 \<and> (0::rat) \<le> 20
   \<and> 0 < zoom (scale ex_ruler) \<and> 0 < unit (scale ex_ruler) \<and> 1 \<le> segments (scale ex_ruler)
   \<and> 0 < PREVIEW_FRAME_WIDTH (constants ex_ruler)
   \<and> MoveTo 5 32 \<in> set (the (draw ex_ruler 5 20 40))
   \<and> - zoomUnit ex_ruler \<le> 5 \<and> 5 \<le> 20 + zoomUnit ex_ruler
   \<and> ((0, 0), line_cmds ex_ruler 5 0) \<in> set (draw_lines ex_ruler 5 20)"
proof -
  have h: "(0::rat) \<le> 5" "(0::rat) \<le> 20"
    "0 < zoom (scale ex_ruler)" "0 < unit (scale ex_ruler)" "1 \<le> segments (scale ex_ruler)"
    "0 < PREVIEW_FRAME_WIDTH (constants ex_ruler)"
    by code_simp+
  from drawn_ticks_within_slack [OF h, of 40]
  obtain cmds where c: "draw ex_ruler 5 20 40 = Some cmds"
    and b: "\<forall>x y. MoveTo x y \<in> set cmds \<or> LineTo x y \<in> set cmds
                  \<longrightarrow> - zoomUnit ex_ruler \<le> x \<and> x \<le> 20 + zoomUnit ex_ruler"
    by blast
  have m: "MoveTo 5 32 \<in> set (the (draw ex_ruler 5 20 40))"
    by code_simp
  with c have "MoveTo 5 32 \<in> set cmds" by simp
  with b have r: "- zoomUnit ex_ruler \<le> 5 \<and> 5 \<le> 20 + zoomUnit ex_ruler" by blast
  have l: "((0, 0), line_cmds ex_ruler 5 0) \<in> set (draw_lines ex_ruler 5 20)"
    by code_simp
  from h m r l show ?thesis by simp
qed

subsection \<open>C2: a click on a tick reports the tick\<close>

text \<open>
  C2, as the claim states it, fails: a tick left of the timeline origin on screen is
  clicked at a negative relative position, and the handler's guard drops the click. Here
  the scroll offset is 5 and the tick is the one of index 0.
\<close>

theorem click_on_tick_left_of_origin:
  "callbacks (snd (handleTimelineClick (ex_ruler\<lparr>scrollPos := 5\<rparr>) ex_state
      (line_startValue (ex_ruler\<lparr>scrollPos := 5\<rparr>) 0 - scrollPos (ex_ruler\<lparr>scrollPos := 5\<rparr>)
       + rect_left ex_canvas + timelineStart (ex_ruler\<lparr>scrollPos := 5\<rparr>)))) = []"
  by code_simp

text \<open>
  C2, amended. With the canvas present and the callback supplied, a click at the drawn
  position of the tick of index \<open>i\<close> (\<open>i \<times> zoomUnit - scrollOffset\<close>) plus the region's
  left edge plus the leading offset invokes the callback with exactly \<open>i \<times> zoomUnit\<close>
  when \<open>i \<times> zoomUnit \<ge> scrollOffset\<close>, and invokes nothing otherwise.
\<close>

theorem click_on_tick_roundtrip:
  assumes "canvasRef S = Some cv" and "onClick R"
  shows "callbacks (snd (handleTimelineClick R S
           (line_startValue R i - scrollPos R + rect_left cv + timelineStart R)))
         = (if scrollPos R \<le> of_int i * zoomUnit R then [of_int i * zoomUnit R] else [])"
  using assms by (simp add: callbacks_click line_startValue_def)

theorem click_on_tick_roundtrip_witness:
  "canvasRef ex_state = Some ex_canvas \<and> onClick ex_ruler
   \<and> callbacks (snd (handleTimelineClick ex_ruler ex_state
           (line_startValue ex_ruler 2 - scrollPos ex_ruler + rect_left ex_canvas
            + timelineStart ex_ruler))) = [120]"
proof -
  have h: "canvasRef ex_state = Some ex_canvas" "onClick ex_ruler"
    by (rule ex_click_facts)+
  have "zoomUnit ex_ruler = 60" by code_simp
  with h click_on_tick_roundtrip [OF h, of 2] show ?thesis
    by (simp add: ex_click_facts)
qed

subsection \<open>C3: when the click handler calls back\<close>

text \<open>
  C3. \<open>handleTimelineClick\<close> invokes \<open>onClick\<close> if and only if the canvas is present, the
  callback is supplied and the relative position (\<open>clientX\<close> minus the region's left edge
  minus the leading offset) is not negative; the argument is then exactly the relative
  position plus the scroll offset; and the handler never changes the state. (With canvas
  and callback present it writes its debug line to the console in either case.)
\<close>

theorem click_callback_iff:
  "(callbacks (snd (handleTimelineClick R S x)) \<noteq> []
      \<longleftrightarrow> (\<exists>cv. canvasRef S = Some cv \<and> onClick R \<and> 0 \<le> x - rect_left cv - timelineStart R))
   \<and> (\<forall>cv. canvasRef S = Some cv \<and> onClick R \<and> 0 \<le> x - rect_left cv - timelineStart R
         \<longrightarrow> callbacks (snd (handleTimelineClick R S x))
             = [x - rect_left cv - timelineStart R + scrollPos R])
   \<and> fst (handleTimelineClick R S x) = S"
  by (auto simp: callbacks_click state_click split: option.splits)

theorem click_callback_iff_witness:
  "canvasRef ex_state = Some ex_canvas \<and> onClick ex_ruler
   \<and> (0::rat) \<le> 50 - rect_left ex_canvas - timelineStart ex_ruler
   \<and> callbacks (snd (handleTimelineClick ex_ruler ex_state 50)) = [40]
   \<and> fst (handleTimelineClick ex_ruler ex_state 50) = ex_state"
  using click_callback_iff [of ex_ruler ex_state 50] by (simp add: ex_click_facts)

subsection \<open>C4: the drag\<close>

text \<open>
  C4. From an idle state (not dragging, no listeners), with the region's left edge at 0, a
  leading offset of 10 and no scroll: a press at 50 followed by document moves at 80 and
  30 invokes the callback with 40, 70, 20 in this order; after the release no listener is
  registered and no later document move invokes the callback; and this holds after the
  release that ends any run of events.
\<close>

theorem drag_scenario:
  assumes "canvasRef S = Some cv" and "rect_left cv = 0" and "onClick R"
    and "scrollPos R = 0" and "timelineStart R = 10"
    and "\<not> isDragging S" and "listeners S = None"
  shows "callbacks (snd (run R S [MouseDown 50, DocumentMouseMove 80, DocumentMouseMove 30]))
           = [40, 70, 20]
         \<and> listeners (fst (run R S [MouseDown 50, DocumentMouseMove 80, DocumentMouseMove 30,
                                    DocumentMouseUp])) = None
         \<and> callbacks (snd (run R S ([MouseDown 50, DocumentMouseMove 80, DocumentMouseMove 30,
                                     DocumentMouseUp] @ map DocumentMouseMove xs)))
           = [40, 70, 20]
         \<and> (\<forall>es. callbacks (snd (run R (fst (run R S (es @ [DocumentMouseUp])))
                                 (map DocumentMouseMove xs))) = [])"
proof -
  let ?S1 = "fst (dispatch R S (MouseDown 50))"
  let ?drag = "[MouseDown 50, DocumentMouseMove 80, DocumentMouseMove 30]"
  have p: "canvasRef ?S1 = Some cv" "listeners ?S1 = Some True" "isDragging ?S1"
    "callbacks (snd (dispatch R S (MouseDown 50))) = [40]"
    using drag_press [OF assms(1,3,6), of 50] assms by simp_all
  have m: "fst (dispatch R ?S1 (DocumentMouseMove x)) = ?S1"
    "callbacks (snd (dispatch R ?S1 (DocumentMouseMove 80))) = [70]"
    "callbacks (snd (dispatch R ?S1 (DocumentMouseMove 30))) = [20]" for x
    using drag_move [OF p(1) assms(3) p(2)] assms by simp_all
  have r3: "fst (run R S ?drag) = ?S1"
    by (simp only: run_Cons run_Nil m(1))
  have c3: "callbacks (snd (run R S ?drag)) = [40, 70, 20]"
    by (simp only: run_Cons run_Nil m callbacks_append p(4) append.simps append_Nil2)
  have i0: "drag_inv S"
    using assms by (simp add: drag_inv_def)
  have rel: "listeners (fst (run R S (es @ [DocumentMouseUp]))) = None
             \<and> snd (run R S (es @ [DocumentMouseUp])) = snd (run R S es)" for es
  proof -
    have "drag_inv (fst (run R S es))" using i0 by (rule run_inv)
    from release_removes_listeners [OF this, of R] show ?thesis
      by (simp only: run_append run_Cons run_Nil append_Nil2)
  qed
  have a: "listeners (fst (run R S (?drag @ [DocumentMouseUp]))) = None"
    using rel [of ?drag] by simp
  have b: "callbacks (snd (run R S ((?drag @ [DocumentMouseUp]) @ map DocumentMouseMove xs)))
           = [40, 70, 20]"
    using rel [of ?drag] moves_without_listeners [of "fst (run R S (?drag @ [DocumentMouseUp]))" R xs]
      c3
    by (simp only: run_append snd_conv append_Nil2)
  have g: "callbacks (snd (run R (fst (run R S (es @ [DocumentMouseUp])))
                                 (map DocumentMouseMove xs))) = []" for es
    using rel [of es] moves_without_listeners [of "fst (run R S (es @ [DocumentMouseUp]))" R xs]
    by simp
  from c3 a b g show ?thesis by simp
qed

theorem drag_scenario_witness:
  "canvasRef ex_state = Some ex_canvas \<and> rect_left ex_canvas = 0 \<and> onClick ex_ruler
   \<and> scrollPos ex_ruler = 0 \<and> timelineStart ex_ruler = 10
   \<and> \<not> isDragging ex_state \<and> listeners ex_state = None
   \<and> callbacks (snd (run ex_ruler ex_state
         [MouseDown 50, DocumentMouseMove 80, DocumentMouseMove 30])) = [40, 70, 20]
   \<and> callbacks (snd (run ex_ruler ex_state
         [MouseDown 50, DocumentMouseMove 80, DocumentMouseMove 30, DocumentMouseUp,
          DocumentMouseMove 90, DocumentMouseMove 15])) = [40, 70, 20]"
proof -
  have h: "canvasRef ex_state = Some ex_canvas" "rect_left ex_canvas = 0" "onClick ex_ruler"
    "scrollPos ex_ruler = 0" "timelineStart ex_ruler = 10"
    "\<not> isDragging ex_state" "listeners ex_state = None"
    by code_simp+
  from h drag_scenario [OF h, of "[90, 15]"] show ?thesis by simp
qed

subsection \<open>C5: labels and lines use the same position\<close>

text \<open>
  C5. For every index, scroll position and \<open>zoom > 0\<close>, the position computed for a label,
  \<open>(value \<times> zoomUnit / zoom - scrollPos / zoom) \<times> zoom\<close>, equals the one computed for the
  lines, \<open>value \<times> zoomUnit - scrollPos\<close>; both are then shifted by \<open>offsetX\<close>, and every
  label that \<open>draw\<close> fills is centred on the position of the first line of its index.
\<close>

theorem label_and_stroke_positions_agree:
  assumes "0 < zoom (scale R)"
  shows "text_startPos R sp v = line_startValue R v - sp
         \<and> text_startPos R sp v + offsetX R = line_startPos R sp v
         \<and> (\<forall>e \<in> set (draw_labels R sp w).
              \<exists>t x y. snd e = [MeasureText t, FillText t x y]
                      \<and> x + measureText R t / 2 = line_startPos R sp (fst e))"
proof -
  have z: "zoom (scale R) \<noteq> 0" using assms by simp
  have a: "text_startPos R sp u = line_startValue R u - sp" for u
    by (rule text_pos_eq [OF z])
  have b: "text_startPos R sp u + offsetX R = line_startPos R sp u" for u
    by (simp add: a line_startPos_def)
  have c: "\<exists>t x y. snd e = [MeasureText t, FillText t x y]
                  \<and> x + measureText R t / 2 = line_startPos R sp (fst e)"
    if "e \<in> set (draw_labels R sp w)" for e
  proof -
    from that draw_labels_mem [of "fst e" "snd e" R sp w]
    have "snd e = [MeasureText (textFormat R (text_startValue R (fst e))),
                   FillText (textFormat R (text_startValue R (fst e)))
                     (text_startPos R sp (fst e)
                      + - measureText R (textFormat R (text_startValue R (fst e))) / 2 + offsetX R)
                     (textOffsetY R)]"
      by simp
    moreover have "text_startPos R sp (fst e)
                      + - measureText R (textFormat R (text_startValue R (fst e))) / 2 + offsetX R
                      + measureText R (textFormat R (text_startValue R (fst e))) / 2
                   = line_startPos R sp (fst e)"
      using b [of "fst e"] by simp
    ultimately show ?thesis by blast
  qed
  from a b c show ?thesis by blast
qed

theorem label_and_stroke_positions_agree_witness:
  "0 < zoom (scale ex_ruler)
   \<and> text_startPos ex_ruler 5 2 = line_startValue ex_ruler 2 - 5
   \<and> text_startPos ex_ruler 5 2 + offsetX ex_ruler = line_startPos ex_ruler 5 2
   \<and> line_startPos ex_ruler 5 2 = 125"
proof -
  have h: "0 < zoom (scale ex_ruler)"
    by code_simp
  have "line_startPos ex_ruler 5 2 = 125"
    by code_simp
  with h label_and_stroke_positions_agree [OF h, of 5 2 0] show ?thesis by blast
qed

subsection \<open>C6: a viewport of width zero\<close>

text \<open>
  C6, as the claim states it, fails: with a width of zero the range still holds the index
  at the scroll offset, and its label is within the slack of the first loop, so a label is
  filled.
\<close>

theorem zero_width_still_labels:
  "draw ex_ruler 0 0 40 = Some
    [ClearRect 0 0 0 40, Save, SetStrokeStyle ''#71717a'',
     SetFillStyle ''#71717a'', SetLineWidth 1, SetFont 10 ''sans-serif'',
     SetTextBaseline ''top'', Translate (1 / 2) 0, BeginPath,
     MeasureText ''0'', FillText ''0'' 7 12, Restore]"
  by code_simp

text \<open>
  C6, amended. When the viewport width is zero (scroll offset \<open>\<ge> 0\<close>, \<open>zoom > 0\<close>,
  \<open>unit > 0\<close>, positive \<open>PREVIEW_FRAME_WIDTH\<close>), \<open>draw\<close> strokes no line; the index range
  \<open>\<lfloor>scrollOffset / zoomUnit\<rfloor> .. \<lceil>scrollOffset / zoomUnit\<rceil>\<close> is not empty, it holds one or
  two indices, and the label of each of them is filled.
\<close>

theorem zero_width_draws_no_lines:
  assumes "0 \<le> sp" and "0 < zoom (scale R)" and "0 < unit (scale R)"
    and "0 < PREVIEW_FRAME_WIDTH (constants R)"
  shows "draw_lines R sp 0 = []
         \<and> draw R sp 0 h = Some (draw_prologue R 0 h @ concat (map snd (draw_labels R sp 0))
                                  @ [Restore])
         \<and> map fst (draw_labels R sp 0) = [minRange R sp..maxRange R sp 0]
         \<and> minRange R sp \<le> maxRange R sp 0 \<and> maxRange R sp 0 \<le> minRange R sp + 1"
proof -
  have zu: "0 < zoomUnit R"
    using assms by (simp add: zoomUnit_pos)
  have z: "zoom (scale R) \<noteq> 0" using assms by simp
  have "text_body R sp 0 v \<noteq> []" if "v \<in> set [minRange R sp..maxRange R sp 0]" for v
  proof -
    from that width0_range [OF assms(1) zu, of v]
    have "0 \<le> v \<and> - zoomUnit R < of_int v * zoomUnit R - sp
         \<and> of_int v * zoomUnit R - sp < zoomUnit R"
      by simp
    then show ?thesis
      by (intro text_body_in_slack) (simp_all add: text_pos_eq [OF z] line_startValue_def)
  qed
  then have "filter (\<lambda>v. text_body R sp 0 v \<noteq> []) [minRange R sp..maxRange R sp 0]
             = [minRange R sp..maxRange R sp 0]"
    by (simp add: filter_id_conv)
  then have l: "map fst (draw_labels R sp 0) = [minRange R sp..maxRange R sp 0]"
    by (simp add: draw_labels_indices)
  have d: "draw R sp 0 h = Some (draw_prologue R 0 h @ concat (map snd (draw_labels R sp 0))
                                  @ [Restore])"
    using zu by (simp add: draw_Some draw_lines_width0)
  from l d draw_lines_width0 [of R sp] width0_range_size [OF zu, of sp] show ?thesis
    by simp
qed

theorem zero_width_draws_no_lines_witness:
  "(0::rat) \<le> 65 \<and> 0 < zoom (scale ex_ruler) \<and> 0 < unit (scale ex_ruler)
   \<and> 0 < PREVIEW_FRAME_WIDTH (constants ex_ruler)
   \<and> draw_lines ex_ruler 65 0 = []
   \<and> map fst (draw_labels ex_ruler 65 0) = [1, 2]"
proof -
  have h: "(0::rat) \<le> 65" "0 < zoom (scale ex_ruler)" "0 < unit (scale ex_ruler)"
    "0 < PREVIEW_FRAME_WIDTH (constants ex_ruler)"
    by code_simp+
  have "[minRange ex_ruler 65..maxRange ex_ruler 65 0] = [1, 2]"
    by code_simp
  with h zero_width_draws_no_lines [OF h, of 40] show ?thesis by simp
qed

subsection \<open>C7: the sub-ticks of an index\<close>

text \<open>
  C7. When the long and the short line size differ, the second pass of \<open>draw\<close> emits, for
  each index of the range that is not negative and in increasing order, the sub-ticks at
  \<open>startPos + (j / segments) \<times> zoomUnit\<close> for \<open>j\<close> from 0 below \<open>segments\<close>, leaving out
  those outside \<open>[0, width)\<close>; the one with \<open>j = 0\<close> has the long size and the colour
  \<open>#d4d4d8\<close>, the others the short size and the colour \<open>#a1a1aa\<close>.
\<close>

theorem subticks_per_index:
  assumes "longLineSize R \<noteq> shortLineSize R"
  shows "draw_lines R sp w = spec_lines R sp w"
  unfolding draw_lines_upto spec_lines_def
  by (rule concat_map_guard) (simp add: line_body_spec [OF assms])

theorem subticks_per_index_witness:
  "longLineSize ex_ruler \<noteq> shortLineSize ex_ruler
   \<and> draw_lines ex_ruler 5 40 = spec_lines ex_ruler 5 40
   \<and> spec_lines ex_ruler 5 40
       = [((0, 0), [SetStrokeStyle ''#d4d4d8'', BeginPath, MoveTo 5 32, LineTo 5 40, Stroke]),
          ((0, 1), [SetStrokeStyle ''#a1a1aa'', BeginPath, MoveTo 20 32, LineTo 20 38, Stroke]),
          ((0, 2), [SetStrokeStyle ''#a1a1aa'', BeginPath, MoveTo 35 32, LineTo 35 38, Stroke])]"
proof -
  have h: "longLineSize ex_ruler \<noteq> shortLineSize ex_ruler"
    by code_simp
  have "spec_lines ex_ruler 5 40
       = [((0, 0), [SetStrokeStyle ''#d4d4d8'', BeginPath, MoveTo 5 32, LineTo 5 40, Stroke]),
          ((0, 1), [SetStrokeStyle ''#a1a1aa'', BeginPath, MoveTo 20 32, LineTo 20 38, Stroke]),
          ((0, 2), [SetStrokeStyle ''#a1a1aa'', BeginPath, MoveTo 35 32, LineTo 35 38, Stroke])]"
    by code_simp
  with h subticks_per_index [OF h, of 5 40] show ?thesis by simp
qed

subsection \<open>C8: labels first, lines after\<close>

text \<open>
  C8. Whenever \<open>draw\<close> runs (\<open>zoomUnit\<close> not zero), what it sends to the context is the
  prologue, which starts with the clear, then the labels, then the lines, then the
  restore: the labels come in strictly increasing index order, the lines in strictly
  increasing order of index and sub-index, and every \<open>fillText\<close> stands after the clear
  and before every \<open>stroke\<close>.
\<close>

theorem labels_before_strokes:
  assumes "zoomUnit R \<noteq> 0"
  shows "\<exists>cmds. draw R sp w h = Some cmds
           \<and> cmds = draw_prologue R w h @ concat (map snd (draw_labels R sp w))
                    @ concat (map snd (draw_lines R sp w)) @ [Restore]
           \<and> hd cmds = ClearRect 0 0 w h
           \<and> sorted_wrt (<) (map fst (draw_labels R sp w))
           \<and> sorted_wrt tick_before (map fst (draw_lines R sp w))
           \<and> (\<forall>i j t x y. i < length cmds \<and> j < length cmds \<and> cmds ! i = FillText t x y
                 \<and> cmds ! j = Stroke \<longrightarrow> 0 < i \<and> i < j)"
proof -
  let ?A = "draw_prologue R w h"
  let ?B = "concat (map snd (draw_labels R sp w))"
  let ?C = "concat (map snd (draw_lines R sp w))"
  let ?cmds = "?A @ ?B @ ?C @ [Restore]"
  have d: "draw R sp w h = Some ?cmds"
    using assms by (rule draw_Some)
  have hd: "hd ?cmds = ClearRect 0 0 w h"
    by (simp add: draw_prologue_def)
  have ord: "0 < i \<and> i < j"
    if "i < length ?cmds" and "j < length ?cmds" and i: "?cmds ! i = FillText t x y"
      and j: "?cmds ! j = Stroke" for i j t x y
  proof -
    have "FillText t x y \<notin> set (?C @ [Restore])"
      using lines_paint [of "FillText t x y" R sp w] by auto
    moreover have "Stroke \<notin> set (?A @ ?B)"
      using labels_paint [of Stroke R sp w] prologue_paint [of R w h] by auto
    ultimately have "i < j"
      using append_order [of i "?A @ ?B" "?C @ [Restore]" j] that by simp
    moreover have "0 < i"
    proof (rule ccontr)
      assume "\<not> 0 < i"
      then have "?cmds ! i = ClearRect 0 0 w h"
        by (simp add: draw_prologue_def)
      with i show False by simp
    qed
    ultimately show ?thesis by simp
  qed
  from d hd ord draw_labels_sorted [of R sp w] draw_lines_sorted [of R sp w]
  show ?thesis by blast
qed

theorem labels_before_strokes_witness:
  "zoomUnit ex_ruler \<noteq> 0
   \<and> draw ex_ruler 5 20 40 = Some
       [ClearRect 0 0 20 40, Save, SetStrokeStyle ''#71717a'', SetFillStyle ''#71717a'',
        SetLineWidth 1, SetFont 10 ''sans-serif'', SetTextBaseline ''top'', Translate (1 / 2) 0,
        BeginPath, MeasureText ''0'', FillText ''0'' 2 12, MeasureText ''t'', FillText ''t'' 62 12,
        SetStrokeStyle ''#d4d4d8'', BeginPath, MoveTo 5 32, LineTo 5 40, Stroke, Restore]
   \<and> sorted_wrt (<) (map fst (draw_labels ex_ruler 5 20))
   \<and> sorted_wrt tick_before (map fst (draw_lines ex_ruler 5 20))"
proof -
  have h: "zoomUnit ex_ruler \<noteq> 0"
    by code_simp
  have "draw ex_ruler 5 20 40 = Some
       [ClearRect 0 0 20 40, Save, SetStrokeStyle ''#71717a'', SetFillStyle ''#71717a'',
        SetLineWidth 1, SetFont 10 ''sans-serif'', SetTextBaseline ''top'', Translate (1 / 2) 0,
        BeginPath, MeasureText ''0'', FillText ''0'' 2 12, MeasureText ''t'', FillText ''t'' 62 12,
        SetStrokeStyle ''#d4d4d8'', BeginPath, MoveTo 5 32, LineTo 5 40, Stroke, Restore]"
    by code_simp
  with h labels_before_strokes [OF h, of 5 20 40] show ?thesis by blast
qed

subsection \<open>C9: a resize redraws\<close>

text \<open>
  C9. A call of \<open>resize\<close> with a canvas and a context (and a \<open>zoomUnit\<close> that is not zero)
  first sets the canvas's width to the container's current width (the \<open>offsetWidth\<close> of the
  offset parent, or the canvas's own when it has none) and its height to the height held
  in \<open>canvasSize\<close>, then sends to that same context exactly what \<open>draw\<close> emits for the
  given scroll position, that width and that height, from the clear to the restore, and
  only then records the new size; both effects that call it pass the current \<open>scrollPos\<close>.
\<close>

theorem resize_then_draw:
  assumes "zoomUnit R \<noteq> 0"
  shows "\<exists>cmds S'. draw R sp (container_width cv) (snd (canvasSize S)) = Some cmds
           \<and> resize R S (Some cv) (Some ctx) sp
             = Some (S', [CanvasWidth (container_width cv), CanvasHeight (snd (canvasSize S))]
                         @ map (Context ctx) cmds
                         @ [SetCanvasSize (container_width cv) (snd (canvasSize S))])
           \<and> hd cmds = ClearRect 0 0 (container_width cv) (snd (canvasSize S))
           \<and> last cmds = Restore
           \<and> canvasSize S' = (container_width cv, snd (canvasSize S))
           \<and> (canvasRef S = Some cv \<longrightarrow>
                canvasRef S' = Some (cv\<lparr> canvas_width := container_width cv,
                                         canvas_height := snd (canvasSize S) \<rparr>)
                \<and> (canvasContext S = Some ctx \<longrightarrow>
                     update_effect R S = resize R S (Some cv) (Some ctx) (scrollPos R))
                \<and> (getContext2d cv = Some ctx \<longrightarrow>
                     map_option snd (mount_effect R S)
                     = map_option (\<lambda>r. SetCanvasContext (Some ctx) # snd r)
                         (resize R S (Some cv) (Some ctx) (scrollPos R))))"
proof -
  let ?w = "container_width cv" and ?h = "snd (canvasSize S)"
  let ?cmds = "draw_prologue R ?w ?h @ concat (map snd (draw_labels R sp ?w))
               @ concat (map snd (draw_lines R sp ?w)) @ [Restore]"
  let ?S' = "S\<lparr> canvasRef := map_option (\<lambda>c. c\<lparr> canvas_width := ?w, canvas_height := ?h \<rparr>)
                                        (canvasRef S),
                canvasSize := (?w, ?h) \<rparr>"
  have d: "draw R sp ?w ?h = Some ?cmds"
    using assms by (rule draw_Some)
  have r: "resize R S (Some cv) (Some ctx) sp
           = Some (?S', [CanvasWidth ?w, CanvasHeight ?h] @ map (Context ctx) ?cmds
                        @ [SetCanvasSize ?w ?h])"
    by (simp add: resize_def d Let_def)
  have hl: "hd ?cmds = ClearRect 0 0 ?w ?h" "last ?cmds = Restore"
    by (simp_all add: draw_prologue_def)
  have s: "canvasSize ?S' = (?w, ?h)" by simp
  have c: "canvasRef ?S' = Some (cv\<lparr> canvas_width := ?w, canvas_height := ?h \<rparr>)"
    if "canvasRef S = Some cv"
    using that by simp
  have u: "update_effect R S = resize R S (Some cv) (Some ctx) (scrollPos R)"
    if "canvasRef S = Some cv" "canvasContext S = Some ctx"
    using that by (simp add: update_effect_def)
  have m: "map_option snd (mount_effect R S)
           = map_option (\<lambda>r. SetCanvasContext (Some ctx) # snd r)
               (resize R S (Some cv) (Some ctx) (scrollPos R))"
    if "canvasRef S = Some cv" "getContext2d cv = Some ctx"
    using that by (simp add: mount_effect_def Let_def split: option.splits)
  from d r hl s c u m show ?thesis by blast
qed

theorem resize_then_draw_witness:
  "zoomUnit ex_ruler \<noteq> 0
   \<and> take 3 (snd (the (resize ex_ruler ex_state (Some ex_canvas) (Some 0) 0)))
       = [CanvasWidth 100, CanvasHeight 40, Context 0 (ClearRect 0 0 100 40)]
   \<and> last (snd (the (resize ex_ruler ex_state (Some ex_canvas) (Some 0) 0)))
       = SetCanvasSize 100 40
   \<and> canvasSize (fst (the (resize ex_ruler ex_state (Some ex_canvas) (Some 0) 0))) = (100, 40)"
proof -
  have h: "zoomUnit ex_ruler \<noteq> 0"
    by code_simp
  have e: "container_width ex_canvas = 100" "snd (canvasSize ex_state) = 40"
    by code_simp+
  from resize_then_draw [OF h, of 0 ex_canvas ex_state 0] e
  obtain cmds S' where d: "draw ex_ruler 0 100 40 = Some cmds"
    and r: "resize ex_ruler ex_state (Some ex_canvas) (Some 0) 0
            = Some (S', [CanvasWidth 100, CanvasHeight 40] @ map (Context 0) cmds
                        @ [SetCanvasSize 100 40])"
    and c: "hd cmds = ClearRect 0 0 100 40" and s: "canvasSize S' = (100, 40)"
    by auto
  from d have "cmds \<noteq> []"
    by (auto simp: draw_def draw_prologue_def split: if_splits)
  then obtain x xs where "cmds = x # xs" by (cases cmds) auto
  with c r s h show ?thesis by simp
qed

subsection \<open>C10: the click handler and the offsetX prop\<close>

text \<open>
  C10, as the claim states it, fails: with \<open>offsetX = 0\<close> the first line of index 0 is
  drawn at x = 0, and a click exactly there is left of the constant leading offset of 10,
  so the handler invokes no callback at all (the claim has it invoke one with -10).
\<close>

theorem click_on_tick_custom_offset_lost:
  "((0, 0), line_cmds (ex_ruler\<lparr>offsetX := 0\<rparr>) 0 0) \<in> set (draw_lines (ex_ruler\<lparr>offsetX := 0\<rparr>) 0 100)
   \<and> line_startPos (ex_ruler\<lparr>offsetX := 0\<rparr>) 0 0 = 0
   \<and> callbacks (snd (handleTimelineClick (ex_ruler\<lparr>offsetX := 0\<rparr>) ex_state
        (rect_left ex_canvas + line_startPos (ex_ruler\<lparr>offsetX := 0\<rparr>) 0 0))) = []"
  by code_simp

text \<open>
  C10, amended. \<open>handleTimelineClick\<close> always subtracts the constant
  \<open>TIMELINE_OFFSET_X + TIMELINE_OFFSET_CANVAS_LEFT\<close> and never reads the \<open>offsetX\<close> prop.
  So, with canvas and callback present, a click exactly on the drawn position of the tick
  of index \<open>i\<close> (\<open>i \<times> zoomUnit - scrollOffset + offsetX\<close> from the canvas's left edge)
  invokes the callback with \<open>i \<times> zoomUnit + (offsetX - constant)\<close> when that position is
  not left of the constant, and invokes nothing when it is; at the default \<open>offsetX\<close>,
  which is the constant, the value is \<open>i \<times> zoomUnit\<close>.
\<close>

theorem click_ignores_offsetX:
  assumes "canvasRef S = Some cv" and "onClick R"
  shows "handleTimelineClick (R\<lparr>offsetX := a\<rparr>) S x = handleTimelineClick R S x
    \<and> callbacks (snd (handleTimelineClick R S (rect_left cv + line_startPos R (scrollPos R) i)))
      = (if 0 \<le> line_startPos R (scrollPos R) i - timelineStart R
         then [of_int i * zoomUnit R + (offsetX R - timelineStart R)] else [])
    \<and> offsetX (Ruler_props C sc mt (props\<lparr>p_offsetX := None\<rparr>))
      = timelineStart (Ruler_props C sc mt (props\<lparr>p_offsetX := None\<rparr>))"
  using assms
  by (simp add: callbacks_click line_startPos_def line_startValue_def handleTimelineClick_def
      timelineStart_def Let_def Ruler_props_def dflt_def)

theorem click_ignores_offsetX_witness:
  "canvasRef ex_state = Some ex_canvas \<and> onClick (ex_ruler\<lparr>offsetX := 34\<rparr>)
   \<and> callbacks (snd (handleTimelineClick (ex_ruler\<lparr>offsetX := 34\<rparr>) ex_state
        (rect_left ex_canvas + line_startPos (ex_ruler\<lparr>offsetX := 34\<rparr>)
           (scrollPos (ex_ruler\<lparr>offsetX := 34\<rparr>)) 2))) = [144]
   \<and> handleTimelineClick (ex_ruler\<lparr>offsetX := 34\<rparr>) ex_state 50
       = handleTimelineClick ex_ruler ex_state 50"
proof -
  have h: "canvasRef ex_state = Some ex_canvas" "onClick (ex_ruler\<lparr>offsetX := 34\<rparr>)"
    by code_simp+
  have e: "zoomUnit (ex_ruler\<lparr>offsetX := 34\<rparr>) = 60"
    "offsetX (ex_ruler\<lparr>offsetX := 34\<rparr>) = 34"
    "timelineStart (ex_ruler\<lparr>offsetX := 34\<rparr>) = 10"
    "line_startPos (ex_ruler\<lparr>offsetX := 34\<rparr>) (scrollPos (ex_ruler\<lparr>offsetX := 34\<rparr>)) 2 = 154"
    by code_simp+
  have o: "onClick ex_ruler" by code_simp
  from click_ignores_offsetX [OF h, of 34 50 2] click_ignores_offsetX [OF h(1) o, of 34 50 2]
    h e show ?thesis
    by simp
qed

end
